theory Spec2Isabelle
  imports Complex_Main
begin

section \<open>The board of game\_board.py\<close>

text \<open>
  A \<open>GameBoard\<close> holds \<open>grid_len\<close> and \<open>grid\<close>, a numpy array of shape
  \<open>(grid_len, grid_len)\<close>. The array is a list of rows here. Its cells are float64 in
  the source; tile values are small integers, which float64 holds exactly, so a cell is
  an \<open>int\<close> (no rounding, no overflow to infinity, no NaN). The third attribute
  \<open>dirs\<close> is always \<open>generate_dirs grid_len = [0, 1, 2, 3]\<close>.
\<close>

type_synonym grid = "int list list"

record board =
  grid_len :: nat
  grid :: grid

text \<open>\<open>a.shape[0]\<close> and \<open>a.shape[1]\<close> of a two-dimensional array.\<close>

definition nrows :: "grid \<Rightarrow> nat" where
  "nrows a = length a"

definition ncols :: "grid \<Rightarrow> nat" where
  "ncols a = (case a of [] \<Rightarrow> 0 | r # _ \<Rightarrow> length r)"

text \<open>\<open>np.zeros((r, c))\<close>.\<close>

definition zeros :: "nat \<Rightarrow> nat \<Rightarrow> grid" where
  "zeros r c = replicate r (replicate c 0)"

definition generate_dirs :: "nat \<Rightarrow> nat list" where
  "generate_dirs n = [0 ..< 4]"

definition GameBoard :: "nat \<Rightarrow> board" where
  "GameBoard n = \<lparr>grid_len = n, grid = zeros n n\<rparr>"

text \<open>\<open>clone\<close> builds a new board around \<open>np.copy\<close> of the grid: the same value.\<close>

definition clone :: "board \<Rightarrow> board" where
  "clone b = (GameBoard (grid_len b))\<lparr>grid := grid b\<rparr>"

text \<open>
  The class invariant: the grid is square of side \<open>grid_len\<close>. \<open>__init__\<close> sets it up
  and every method keeps it. The loops below index rows and cells inside this shape
  only; out of it numpy raises (and numba's compiled loops do not check), so the
  theorems are stated for boards that satisfy it.
\<close>

definition wf_board :: "board \<Rightarrow> bool" where
  "wf_board b \<longleftrightarrow> length (grid b) = grid_len b \<and> list_all (\<lambda>r. length r = grid_len b) (grid b)"

subsection \<open>merge\<close>

text \<open>
  One pass of the inner loop body at column \<open>j\<close> of a row, then the row loop
  \<open>for j in range(a.shape[1] - 1)\<close>, then the loop over the rows, each updating the
  array in place. The writes do not change the shape of the array.
\<close>

definition merge_step :: "nat \<Rightarrow> int list \<Rightarrow> int list" where
  "merge_step j r =
     (if r ! j = r ! (j + 1) \<and> r ! j \<noteq> 0 then r[j := r ! j * 2, j + 1 := 0] else r)"

definition merge_row :: "nat \<Rightarrow> int list \<Rightarrow> int list" where
  "merge_row n r = fold merge_step [0 ..< n - 1] r"

definition merge :: "grid \<Rightarrow> grid" where
  "merge a = fold (\<lambda>i a'. a'[i := merge_row (ncols a) (a' ! i)]) [0 ..< nrows a] a"

subsection \<open>justify\_left\<close>

text \<open>
  The inner loop carries the output row and the write position \<open>c\<close>. The output array
  has the shape of the input in every call of \<open>move\<close>, so \<open>c\<close> stays inside the row.
\<close>

definition justify_cell :: "int \<Rightarrow> int list \<times> nat \<Rightarrow> int list \<times> nat" where
  "justify_cell x s = (case s of (out, c) \<Rightarrow> if x \<noteq> 0 then (out[c := x], c + 1) else (out, c))"

definition justify_row :: "int list \<Rightarrow> int list \<Rightarrow> int list" where
  "justify_row r out = fst (fold justify_cell r (out, 0))"

definition justify_left :: "grid \<Rightarrow> grid \<Rightarrow> grid" where
  "justify_left a out = fold (\<lambda>i out. out[i := justify_row (a ! i) (out ! i)]) [0 ..< nrows a] out"

subsection \<open>get\_available\_from\_zeros\<close>

record scan =
  uc :: bool
  dc :: bool
  lc :: bool
  rc :: bool
  v_saw_0 :: "bool list"
  v_saw_1 :: "bool list"
  saw_0 :: bool
  saw_1 :: bool

definition scan_zero :: "nat \<Rightarrow> scan \<Rightarrow> scan" where
  "scan_zero j s = s\<lparr>saw_0 := True, v_saw_0 := (v_saw_0 s)[j := True],
                     rc := (if saw_1 s then True else rc s),
                     dc := (if v_saw_1 s ! j then True else dc s)\<rparr>"

definition scan_pos :: "nat \<Rightarrow> scan \<Rightarrow> scan" where
  "scan_pos j s = s\<lparr>saw_1 := True, v_saw_1 := (v_saw_1 s)[j := True],
                    lc := (if saw_0 s then True else lc s),
                    uc := (if v_saw_0 s ! j then True else uc s)\<rparr>"

definition scan_cell :: "grid \<Rightarrow> nat \<Rightarrow> nat \<Rightarrow> scan \<Rightarrow> scan" where
  "scan_cell a i j s =
     (let s1 = (if a ! i ! j = 0 then scan_zero j s else s)
      in if a ! i ! j > 0 then scan_pos j s1 else s1)"

definition scan_row :: "grid \<Rightarrow> nat \<Rightarrow> scan \<Rightarrow> scan" where
  "scan_row a i s = fold (scan_cell a i) [0 ..< ncols a] (s\<lparr>saw_0 := False, saw_1 := False\<rparr>)"

definition scan_init :: "grid \<Rightarrow> scan" where
  "scan_init a = \<lparr>uc = False, dc = False, lc = False, rc = False,
                  v_saw_0 = replicate (ncols a) False, v_saw_1 = replicate (ncols a) False,
                  saw_0 = False, saw_1 = False\<rparr>"

definition get_available_from_zeros :: "grid \<Rightarrow> bool list" where
  "get_available_from_zeros a =
     (let s = fold (scan_row a) [0 ..< nrows a] (scan_init a) in [uc s, dc s, lc s, rc s])"

subsection \<open>The methods of GameBoard\<close>


text \<open>
  \<open>insert_tile\<close> is the bare write \<open>self.grid[pos[0]][pos[1]] = value\<close>
  (\<open>put_tile\<close>); numpy raises IndexError when an index is outside the array. Positions
  are pairs of naturals, as \<open>get_available_cells\<close> produces them.
\<close>

definition set_cell :: "grid \<Rightarrow> nat \<times> nat \<Rightarrow> int \<Rightarrow> grid" where
  "set_cell a pos v = a[fst pos := (a ! fst pos)[snd pos := v]]"


definition put_tile :: "board \<Rightarrow> nat \<times> nat \<Rightarrow> int \<Rightarrow> board" where
  "put_tile b pos v = b\<lparr>grid := set_cell (grid b) pos v\<rparr>"


definition get_available_cells :: "board \<Rightarrow> (nat \<times> nat) list" where
  "get_available_cells b =
     fold (\<lambda>x cells. fold (\<lambda>y cells. if grid b ! x ! y = 0 then cells @ [(x, y)] else cells)
                          [0 ..< grid_len b] cells)
          [0 ..< grid_len b] []"

text \<open>
  The array views of \<open>move\<close>: \<open>g[:, ::-1]\<close> reverses every row, \<open>g[::-1, :]\<close> reverses
  the order of the rows, \<open>g.T\<close> transposes.
\<close>

definition rev_cols :: "grid \<Rightarrow> grid" where
  "rev_cols g = map rev g"

definition rev_rows :: "grid \<Rightarrow> grid" where
  "rev_rows g = rev g"

definition grid_T :: "grid \<Rightarrow> grid" where
  "grid_T g = map (\<lambda>j. map (\<lambda>r. r ! j) g) [0 ..< ncols g]"

text \<open>
  The three calls every branch of \<open>move\<close> makes: justify into \<open>z1\<close>, merge in place,
  justify into \<open>z2\<close>.
\<close>

definition left_ops :: "grid \<Rightarrow> grid \<Rightarrow> grid \<Rightarrow> grid" where
  "left_ops g z1 z2 = justify_left (merge (justify_left g z1)) z2"

text \<open>
  The grid that \<open>move\<close> leaves in \<open>self.grid\<close>: one branch for each direction, with
  the fresh arrays \<open>z1\<close> and \<open>z2\<close>. A direction other than 0 to 3 takes no branch and
  leaves the grid as it is.
\<close>

definition move_grid :: "nat \<Rightarrow> board \<Rightarrow> grid" where
  "move_grid dir b =
     (let z1 = zeros (grid_len b) (grid_len b);
          z2 = zeros (grid_len b) (grid_len b)
      in if dir = 0 then rev_cols (grid_T (left_ops (grid_T (rev_cols (grid b))) z1 z2))
         else if dir = 1 then grid_T (rev_cols (left_ops (rev_cols (grid_T (grid b))) z1 z2))
         else if dir = 2 then left_ops (grid b) z1 z2
         else if dir = 3 then rev_rows (rev_cols (left_ops (rev_rows (rev_cols (grid b))) z1 z2))
         else grid b)"

text \<open>
  \<open>move\<close> returns its result and the board with the new grid. The result is
  \<open>None\<close> unless \<open>get_avail_call\<close> is set; then it is
  \<open>not (clone.grid == self.grid).all()\<close>, the comparison of two arrays of one shape,
  where \<open>clone\<close> was taken before the grid was touched.
\<close>

definition move :: "nat \<Rightarrow> bool \<Rightarrow> board \<Rightarrow> bool option \<times> board" where
  "move dir get_avail_call b =
     (let clone_grid = grid (clone b);
          g = move_grid dir b
      in (if get_avail_call then Some (\<not> (clone_grid = g)) else None, b\<lparr>grid := g\<rparr>))"

text \<open>
  \<open>get_available_moves\<close> with its default \<open>dirs = self.dirs\<close>; the loop appends the
  directions it accepts.
\<close>

definition move_check :: "board \<Rightarrow> bool list \<Rightarrow> nat \<Rightarrow> nat list \<Rightarrow> nat list" where
  "move_check b a1 x available_moves =
     (if \<not> a1 ! x
      then (if fst (move x True (clone b)) = Some True then available_moves @ [x] else available_moves)
      else available_moves @ [x])"

definition get_available_moves :: "board \<Rightarrow> nat list" where
  "get_available_moves b =
     (let a1 = get_available_from_zeros (grid b)
      in fold (move_check b a1) (generate_dirs (grid_len b)) [])"


definition score_cell :: "board \<Rightarrow> grid \<Rightarrow> nat \<Rightarrow> nat \<Rightarrow> int \<Rightarrow> int" where
  "score_cell b original_grid i j score =
     (let current_value = grid b ! i ! j; original_value = original_grid ! i ! j
      in if current_value > original_value \<and> current_value \<noteq> 0 then score + current_value else score)"

definition calculate_move_score :: "board \<Rightarrow> grid \<Rightarrow> int" where
  "calculate_move_score b original_grid =
     fold (\<lambda>i score. fold (score_cell b original_grid i) [0 ..< grid_len b] score) [0 ..< grid_len b] 0"

section \<open>The searches of ai.py\<close>

text \<open>
  The evaluation works on float64. Here a finite float is a real number, with exact
  arithmetic (no rounding, no overflow); the infinities that the searches start their
  maxima and minima from are constructors of their own.
\<close>

subsection \<open>eval\_board\<close>

text \<open>
  \<open>np.sqrt\<close> of a negative cell is NaN in the source; cells are not negative on the
  boards of the game.
\<close>

definition eval_board :: "board \<Rightarrow> nat \<Rightarrow> real \<times> real \<times> real \<times> real" where
  "eval_board b n_empty =
     (let g = grid b;
          big_t = (\<Sum>r\<leftarrow>g. \<Sum>x\<leftarrow>r. (real_of_int x)\<^sup>2);
          s_grid = map (map (\<lambda>x. sqrt (real_of_int x))) g;
          smoothness_h =
            fold (\<lambda>i s. fold (\<lambda>j s. s - \<bar>s_grid ! i ! j - s_grid ! i ! (j + 1)\<bar>) [0 ..< ncols g - 1] s)
                 [0 ..< nrows g] 0;
          smoothness =
            fold (\<lambda>j s. fold (\<lambda>i s. s - \<bar>s_grid ! i ! j - s_grid ! (i + 1) ! j\<bar>) [0 ..< nrows g - 1] s)
                 [0 ..< ncols g] smoothness_h;
          empty_w = 100000;
          smoothness_w = 3;
          empty_u = real n_empty * empty_w;
          smooth_u = smoothness ^ smoothness_w;
          big_t_u = big_t;
          utility = 0 + big_t + empty_u + smooth_u
      in (utility, empty_u, smooth_u, big_t_u))"

subsection \<open>Expectimax\<close>

text \<open>
  The first component of a utility tuple is finite or \<open>float('-inf')\<close>, the start value
  of \<open>max_utility\<close>; the other three are finite. The weights of \<open>chance\<close> are positive,
  so minus infinity times a weight is minus infinity, and minus infinity plus anything
  that occurs is minus infinity.
\<close>

datatype score = NegInf | Fin real

type_synonym util = "score \<times> real \<times> real \<times> real"

fun score_ge :: "score \<Rightarrow> score \<Rightarrow> bool" where
  "score_ge _ NegInf = True"
| "score_ge NegInf (Fin _) = False"
| "score_ge (Fin x) (Fin y) = (x \<ge> y)"

fun score_add :: "score \<Rightarrow> score \<Rightarrow> score" where
  "score_add (Fin x) (Fin y) = Fin (x + y)"
| "score_add _ _ = NegInf"

fun score_scale :: "score \<Rightarrow> real \<Rightarrow> score" where
  "score_scale (Fin x) w = Fin (x * w)"
| "score_scale NegInf w = NegInf"

definition eval_util :: "board \<Rightarrow> nat \<Rightarrow> util" where
  "eval_util b n_empty = (case eval_board b n_empty of (u, e, s, t) \<Rightarrow> (Fin u, e, s, t))"

text \<open>The body of the selection loop of \<open>maximize\<close>, given the utility of the move.\<close>

definition maximize_step :: "nat \<Rightarrow> util \<Rightarrow> util \<times> nat option \<Rightarrow> util \<times> nat option" where
  "maximize_step m utility s =
     (case s of (max_utility, best_direction) \<Rightarrow>
        if score_ge (fst utility) (fst max_utility) then (utility, Some m)
        else (max_utility, best_direction))"

text \<open>
  The body of the summing loop of \<open>chance\<close>:
  \<open>utility_sum[i] += utility[i] * t[2]\<close> for the four components.
\<close>

definition chance_step :: "util \<Rightarrow> real \<Rightarrow> util \<Rightarrow> util" where
  "chance_step utility w utility_sum =
     (case utility of (u0, u1, u2, u3) \<Rightarrow>
      case utility_sum of (s0, s1, s2, s3) \<Rightarrow>
        (score_add s0 (score_scale u0 w), s1 + u1 * w, s2 + u2 * w, s3 + u3 * w))"

text \<open>
  The adaptive depth limit \<open>max(3, int(5 / (grid_len / 4)))\<close>. For \<open>grid_len = 0\<close> the
  source divides by zero; \<open>chance\<close> is only reached on a board with a cell.
\<close>

definition chance_max_depth :: "nat \<Rightarrow> nat" where
  "chance_max_depth n = max 3 (nat \<lfloor>5 / (real n / 4)\<rfloor>)"

text \<open>
  The list \<open>possible_tiles\<close>: for every empty cell a 2 and a 4 with their weights.
\<close>

definition possible_tiles :: "(nat \<times> nat) list \<Rightarrow> real \<Rightarrow> real \<Rightarrow> ((nat \<times> nat) \<times> int \<times> real) list" where
  "possible_tiles empty_cells chance_2 chance_4 =
     fold (\<lambda>empty_cell tiles. (tiles @ [(empty_cell, 2, chance_2)]) @ [(empty_cell, 4, chance_4)])
          empty_cells []"

text \<open>
  \<open>maximize\<close> and \<open>chance\<close> call each other. \<open>chance\<close> calls \<open>maximize\<close> with the
  default \<open>max_depth = 3\<close>. The searches insert tiles only at cells that
  \<open>get_available_cells\<close> returned; these lie inside the grid, where \<open>insert_tile\<close> is
  the write \<open>put_tile\<close>.
\<close>

function maximize :: "board \<Rightarrow> nat \<Rightarrow> nat \<Rightarrow> nat option \<times> util"
  and chance :: "board \<Rightarrow> nat \<Rightarrow> util" where
  "maximize b depth max_depth =
     (if depth \<ge> max_depth then (None, eval_util b (length (get_available_cells b)))
      else
        let moves = get_available_moves b;
            moves_boards = map (\<lambda>m. (m, snd (move m False (clone b)))) moves;
            r = fold (\<lambda>mb s. maximize_step (fst mb) (chance (snd mb) (depth + 1)) s)
                     moves_boards ((NegInf, 0, 0, 0), None)
        in (snd r, fst r))"
| "chance b depth =
     (let empty_cells = get_available_cells b;
          n_empty = length empty_cells;
          max_depth = chance_max_depth (grid_len b)
      in if n_empty \<ge> grid_len b * 2 \<and> depth \<ge> max_depth then eval_util b n_empty
         else if n_empty = 0 then snd (maximize b (depth + 1) 3)
         else
           let chance_2 = 0.9 * (1 / real n_empty);
               chance_4 = 0.1 * (1 / real n_empty)
           in fold (\<lambda>t utility_sum.
                      chance_step (snd (maximize (put_tile (clone b) (fst t) (fst (snd t))) (depth + 1) 3))
                                  (snd (snd t)) utility_sum)
                   (possible_tiles empty_cells chance_2 chance_4) (Fin 0, 0, 0, 0))"
  by pat_completeness auto
termination
  by (relation "measure (\<lambda>x. case x of
         Inl (b, depth, max_depth) \<Rightarrow> (if depth \<ge> max_depth then 0 else 2 + 2 * (2 - depth))
       | Inr (b, depth) \<Rightarrow> 1 + 2 * (3 - depth))") auto

declare maximize.simps [simp del] chance.simps [simp del]

subsection \<open>Minimax\<close>

text \<open>
  A minimax value is a finite evaluation, \<open>float('-inf')\<close> or \<open>float('inf')\<close>, ordered as
  floats are. The depth is a natural number: \<open>get_move\<close> passes \<open>max_depth = 3\<close> and
  the default is 4. (With \<open>max_depth = 0\<close> the source would descend through negative
  depths; the model does not cover that call.)
\<close>

datatype mscore = MinusInf | Val real | PlusInf

instantiation mscore :: linorder
begin

fun less_eq_mscore :: "mscore \<Rightarrow> mscore \<Rightarrow> bool" where
  "less_eq_mscore MinusInf _ = True"
| "less_eq_mscore _ PlusInf = True"
| "less_eq_mscore (Val x) (Val y) = (x \<le> y)"
| "less_eq_mscore _ _ = False"

definition less_mscore :: "mscore \<Rightarrow> mscore \<Rightarrow> bool" where
  "less_mscore x y \<longleftrightarrow> x \<le> y \<and> \<not> y \<le> (x :: mscore)"

instance
proof
  fix x y z :: mscore
  show "(x < y) = (x \<le> y \<and> \<not> y \<le> x)" by (simp add: less_mscore_def)
  show "x \<le> x" by (cases x) simp_all
  show "x \<le> y \<Longrightarrow> y \<le> z \<Longrightarrow> x \<le> z" by (cases x; cases y; cases z) simp_all
  show "x \<le> y \<Longrightarrow> y \<le> x \<Longrightarrow> x = y" by (cases x; cases y) simp_all
  show "x \<le> y \<or> y \<le> x" by (cases x; cases y) auto
qed

end





subsection \<open>get\_move\<close>



section \<open>Notions used to state the properties\<close>

text \<open>An array of \<open>m\<close> rows of \<open>n\<close> cells each.\<close>

definition rect :: "nat \<Rightarrow> nat \<Rightarrow> grid \<Rightarrow> bool" where
  "rect m n g \<longleftrightarrow> length g = m \<and> (\<forall>r \<in> set g. length r = n)"

text \<open>
  A row with its non-zero cells packed to the left, in their order, and zeros up to
  length \<open>n\<close>: what \<open>justify_left\<close> writes into a row of a zero array.
\<close>

definition pack :: "nat \<Rightarrow> int list \<Rightarrow> int list" where
  "pack n r = filter (\<lambda>x. x \<noteq> 0) r @ replicate (n - length (filter (\<lambda>x. x \<noteq> 0) r)) 0"

text \<open>The sum of all cells of a grid.\<close>

definition grid_total :: "grid \<Rightarrow> int" where
  "grid_total g = sum_list (map sum_list g)"

text \<open>A 4 by 4 board with the given first row and three empty rows.\<close>

definition row_board :: "int list \<Rightarrow> board" where
  "row_board r = \<lparr>grid_len = 4, grid = [r, [0, 0, 0, 0], [0, 0, 0, 0], [0, 0, 0, 0]]\<rparr>"

text \<open>A 4 by 4 board with tiles that merge along rows and along columns.\<close>

definition mixed_board :: board where
  "mixed_board = \<lparr>grid_len = 4, grid = [[2, 2, 4, 4], [2, 0, 4, 8], [0, 0, 0, 0], [8, 0, 0, 8]]\<rparr>"

text \<open>
  The score of a move as the rules of the game and the docstring of
  \<open>calculate_move_score\<close> word it: the total value of the tiles that merges produce
  during the move. \<open>merge_gain_row\<close> follows the merge loop over a justified row and
  adds up every doubled tile; \<open>oriented\<close> is the grid as \<open>move\<close> turns it before the
  left operations.
\<close>

definition merge_gain_step :: "nat \<Rightarrow> int list \<times> int \<Rightarrow> int list \<times> int" where
  "merge_gain_step j s =
     (case s of (r, gain) \<Rightarrow>
        if r ! j = r ! (j + 1) \<and> r ! j \<noteq> 0 then (r[j := r ! j * 2, j + 1 := 0], gain + r ! j * 2)
        else (r, gain))"

definition merge_gain_row :: "int list \<Rightarrow> int" where
  "merge_gain_row r = snd (fold merge_gain_step [0 ..< length r - 1] (pack (length r) r, 0))"

definition oriented :: "nat \<Rightarrow> grid \<Rightarrow> grid" where
  "oriented dir g =
     (if dir = 0 then grid_T (rev_cols g)
      else if dir = 1 then rev_cols (grid_T g)
      else if dir = 2 then g
      else if dir = 3 then rev_rows (rev_cols g)
      else g)"

definition merged_value :: "nat \<Rightarrow> board \<Rightarrow> int" where
  "merged_value dir b = (if dir < 4 then sum_list (map merge_gain_row (oriented dir (grid b))) else 0)"

text \<open>
  What the four flags of \<open>get_available_from_zeros\<close> stand for: somewhere a tile
  (a positive cell) has an empty cell on the side the move goes to.
\<close>

definition gap_left :: "grid \<Rightarrow> bool" where
  "gap_left a \<longleftrightarrow> (\<exists>i j1 j2. i < nrows a \<and> j1 < j2 \<and> j2 < ncols a \<and> a ! i ! j1 = 0 \<and> a ! i ! j2 > 0)"

definition gap_right :: "grid \<Rightarrow> bool" where
  "gap_right a \<longleftrightarrow> (\<exists>i j1 j2. i < nrows a \<and> j1 < j2 \<and> j2 < ncols a \<and> a ! i ! j1 > 0 \<and> a ! i ! j2 = 0)"

definition gap_up :: "grid \<Rightarrow> bool" where
  "gap_up a \<longleftrightarrow> (\<exists>j i1 i2. j < ncols a \<and> i1 < i2 \<and> i2 < nrows a \<and> a ! i1 ! j = 0 \<and> a ! i2 ! j > 0)"

definition gap_down :: "grid \<Rightarrow> bool" where
  "gap_down a \<longleftrightarrow> (\<exists>j i1 i2. j < ncols a \<and> i1 < i2 \<and> i2 < nrows a \<and> a ! i1 ! j > 0 \<and> a ! i2 ! j = 0)"

text \<open>
  The state of the scan before cell \<open>(i, k)\<close>: a flag is set only with its gap in the
  grid, and the \<open>saw\<close> markers only with a cell already visited.
\<close>

definition seen :: "nat \<Rightarrow> nat \<Rightarrow> nat \<Rightarrow> nat \<Rightarrow> bool" where
  "seen i k i' c \<longleftrightarrow> i' < i \<or> (i' = i \<and> c < k)"

definition scan_inv :: "grid \<Rightarrow> nat \<Rightarrow> nat \<Rightarrow> scan \<Rightarrow> bool" where
  "scan_inv a i k s \<longleftrightarrow>
     (lc s \<longrightarrow> gap_left a) \<and> (rc s \<longrightarrow> gap_right a) \<and> (uc s \<longrightarrow> gap_up a) \<and> (dc s \<longrightarrow> gap_down a) \<and>
     (saw_0 s \<longrightarrow> (\<exists>j<k. a ! i ! j = 0)) \<and> (saw_1 s \<longrightarrow> (\<exists>j<k. a ! i ! j > 0)) \<and>
     length (v_saw_0 s) = ncols a \<and> length (v_saw_1 s) = ncols a \<and>
     (\<forall>c<ncols a. v_saw_0 s ! c \<longrightarrow> (\<exists>i'. seen i k i' c \<and> a ! i' ! c = 0)) \<and>
     (\<forall>c<ncols a. v_saw_1 s ! c \<longrightarrow> (\<exists>i'. seen i k i' c \<and> a ! i' ! c > 0))"

text \<open>A row with an empty cell somewhere before a tile: not yet packed to the left.\<close>

definition zero_before_tile :: "int list \<Rightarrow> bool" where
  "zero_before_tile r \<longleftrightarrow> (\<exists>j1 j2. j1 < j2 \<and> j2 < length r \<and> r ! j1 = 0 \<and> r ! j2 \<noteq> 0)"

text \<open>
  A board of fifteen distinct tiles with the corner (0, 0) empty, and the boards that
  move Up and move Left make of it. No two tiles are equal, so nothing ever merges.
\<close>

definition distinct_board :: board where
  "distinct_board = \<lparr>grid_len = 4, grid = [[0, 8, 16, 32], [64, 128, 256, 512],
     [1024, 2048, 4096, 8192], [16384, 32768, 65536, 131072]]\<rparr>"

definition distinct_up :: board where
  "distinct_up = \<lparr>grid_len = 4, grid = [[64, 8, 16, 32], [1024, 128, 256, 512],
     [16384, 2048, 4096, 8192], [0, 32768, 65536, 131072]]\<rparr>"

definition distinct_left :: board where
  "distinct_left = \<lparr>grid_len = 4, grid = [[8, 16, 32, 0], [64, 128, 256, 512],
     [1024, 2048, 4096, 8192], [16384, 32768, 65536, 131072]]\<rparr>"

text \<open>
  The utility that \<open>maximize\<close> at \<open>depth\<close> compares for the move \<open>m\<close>: \<open>chance\<close> on the
  clone after the move.
\<close>

definition move_utility :: "board \<Rightarrow> nat \<Rightarrow> nat \<Rightarrow> util" where
  "move_utility b depth m = chance (snd (move m False (clone b))) (depth + 1)"










section \<open>The loops of merge and justify\_left\<close>

lemma rect_nth: "rect m n g \<Longrightarrow> i < m \<Longrightarrow> length (g ! i) = n"
  by (auto simp: rect_def)

lemma rect_length: "rect m n g \<Longrightarrow> length g = m"
  by (simp add: rect_def)

lemma rect_ncols: "rect m n g \<Longrightarrow> 0 < m \<Longrightarrow> ncols g = n"
  by (cases g) (auto simp: rect_def ncols_def)

lemma wf_board_rect: "wf_board b \<longleftrightarrow> rect (grid_len b) (grid_len b) (grid b)"
  by (auto simp: wf_board_def rect_def list_all_iff)

lemma rect_zeros: "rect m n (zeros m n)"
  by (simp add: rect_def zeros_def)

lemma fold_upt_invariant:
  assumes "P 0 s" and "\<And>k s. k < n \<Longrightarrow> P k s \<Longrightarrow> P (Suc k) (f k s)"
  shows "P n (fold f [0 ..< n] s)"
  using assms
proof (induction n)
  case 0
  then show ?case by simp
next
  case (Suc n)
  then have "P n (fold f [0 ..< n] s)" by simp
  with Suc.prems(2) [of n] show ?case by simp
qed

lemma fold_update_rows:
  "k \<le> length xs \<Longrightarrow>
   fold (\<lambda>i ys. ys[i := F i (ys ! i)]) [0 ..< k] xs = map (\<lambda>i. F i (xs ! i)) [0 ..< k] @ drop k xs"
proof (induction k)
  case 0
  then show ?case by simp
next
  case (Suc k)
  then have k: "k < length xs" by simp
  have "(map (\<lambda>i. F i (xs ! i)) [0..<k] @ drop k xs)[k := F k (xs ! k)]
        = map (\<lambda>i. F i (xs ! i)) [0..<k] @ (drop k xs)[0 := F k (xs ! k)]"
    by (simp add: list_update_append)
  also have "(drop k xs)[0 := F k (xs ! k)] = F k (xs ! k) # drop (Suc k) xs"
    using k by (simp add: Cons_nth_drop_Suc [symmetric])
  finally show ?case using Suc k by (simp add: nth_append)
qed

lemma merge_map: "merge a = map (merge_row (ncols a)) a"
proof -
  have "merge a = map (\<lambda>i. merge_row (ncols a) (a ! i)) [0 ..< length a]"
    unfolding merge_def nrows_def
    using fold_update_rows [of "length a" a "\<lambda>i. merge_row (ncols a)"] by simp
  also have "\<dots> = map (merge_row (ncols a)) a"
    by (rule nth_equalityI) simp_all
  finally show ?thesis .
qed

lemma justify_left_map:
  assumes "length out = length a"
  shows "justify_left a out = map (\<lambda>i. justify_row (a ! i) (out ! i)) [0 ..< length a]"
  unfolding justify_left_def nrows_def
  using fold_update_rows [of "length a" out "\<lambda>i. justify_row (a ! i)"] assms by simp

lemma justify_cell_pair:
  "justify_cell x (out, c) = (if x \<noteq> 0 then (out[c := x], Suc c) else (out, c))"
  by (simp add: justify_cell_def)

lemma nonzeros_le: "length r \<le> n \<Longrightarrow> length (filter (\<lambda>x. x \<noteq> (0::int)) r) \<le> n"
  by (rule le_trans [OF length_filter_le])

lemma fold_justify_cell:
  "c + length (filter (\<lambda>x. x \<noteq> 0) r) \<le> length out \<Longrightarrow>
   fold justify_cell r (out, c) =
     (take c out @ filter (\<lambda>x. x \<noteq> 0) r @ drop (c + length (filter (\<lambda>x. x \<noteq> 0) r)) out,
      c + length (filter (\<lambda>x. x \<noteq> 0) r))"
proof (induction r arbitrary: out c)
  case Nil
  then show ?case by simp
next
  case (Cons x r)
  show ?case
  proof (cases "x = 0")
    case True
    with Cons show ?thesis by (simp add: justify_cell_pair)
  next
    case False
    with Cons.prems have c: "c < length out" by simp
    from False Cons.prems
    have "fold justify_cell r (out[c := x], Suc c) =
      (take (Suc c) (out[c := x]) @ filter (\<lambda>x. x \<noteq> 0) r
         @ drop (Suc c + length (filter (\<lambda>x. x \<noteq> 0) r)) (out[c := x]),
       Suc c + length (filter (\<lambda>x. x \<noteq> 0) r))"
      by (intro Cons.IH) simp
    moreover have "take (Suc c) (out[c := x]) = take c out @ [x]"
      using c by (simp add: take_Suc_conv_app_nth)
    ultimately show ?thesis using False by (simp add: justify_cell_pair)
  qed
qed

lemma justify_row_zeros:
  assumes "length r \<le> n"
  shows "justify_row r (replicate n 0) = pack n r"
proof -
  have "0 + length (filter (\<lambda>x. x \<noteq> 0) r) \<le> length (replicate n (0::int))"
    using nonzeros_le [OF assms] by simp
  from fold_justify_cell [OF this] show ?thesis
    by (simp add: justify_row_def pack_def)
qed

lemma justify_left_zeros:
  assumes "rect n n g"
  shows "justify_left g (zeros n n) = map (pack n) g"
proof -
  from assms have len: "length g = n" by (simp add: rect_def)
  then have "justify_left g (zeros n n) = map (\<lambda>i. justify_row (g ! i) (zeros n n ! i)) [0 ..< length g]"
    by (intro justify_left_map) (simp add: zeros_def)
  also have "\<dots> = map (\<lambda>i. pack n (g ! i)) [0 ..< length g]"
    using assms len by (auto simp: zeros_def rect_def intro!: justify_row_zeros)
  also have "\<dots> = map (pack n) g"
    by (rule nth_equalityI) simp_all
  finally show ?thesis .
qed

lemma length_pack: "length r \<le> n \<Longrightarrow> length (pack n r) = n"
  using nonzeros_le [of r n] by (simp add: pack_def)

lemma length_merge_step: "length (merge_step j r) = length r"
  by (simp add: merge_step_def)

lemma length_merge_row: "length (merge_row n r) = length r"
  unfolding merge_row_def
  by (rule fold_upt_invariant [where P = "\<lambda>k s. length s = length r"]) (simp_all add: length_merge_step)

lemma rect_pack: "rect m n g \<Longrightarrow> rect m n (map (pack n) g)"
  by (auto simp: rect_def length_pack)

lemma rect_merge: "rect m n g \<Longrightarrow> rect m n (merge g)"
  by (auto simp: rect_def merge_map length_merge_row)

lemma left_ops_rows:
  assumes "rect n n g"
  shows "left_ops g (zeros n n) (zeros n n) = map (\<lambda>r. pack n (merge_row n (pack n r))) g"
proof (cases "n = 0")
  case True
  with assms show ?thesis by (simp add: rect_def left_ops_def justify_left_def merge_def nrows_def zeros_def)
next
  case False
  from assms have 1: "justify_left g (zeros n n) = map (pack n) g" by (rule justify_left_zeros)
  from assms have r1: "rect n n (map (pack n) g)" by (rule rect_pack)
  with False have nc: "ncols (map (pack n) g) = n" by (simp add: rect_ncols)
  from r1 have r2: "rect n n (merge (map (pack n) g))" by (rule rect_merge)
  show ?thesis
    unfolding left_ops_def 1 justify_left_zeros [OF r2]
    by (simp add: merge_map nc)
qed

section \<open>Moving left\<close>

text \<open>
  C2. On the board whose first row is 2 2 4 4 (the other rows empty), move Left gives
  4 8 0 0: the merge pass turns the row into 4 0 8 0, so the 4 produced by the first merge
  does not merge with the 4 next to it, which merges with its own neighbour. A second
  move Left changes nothing.
\<close>

theorem move_left_2244:
  "merge_row 4 [2, 2, 4, 4] = [4, 0, 8, 0] \<and>
   move 2 True (row_board [2, 2, 4, 4]) = (Some True, row_board [4, 8, 0, 0]) \<and>
   move 2 True (row_board [4, 8, 0, 0]) = (Some False, row_board [4, 8, 0, 0]) \<and>
   snd (move 2 False (row_board [2, 2, 4, 4])) = row_board [4, 8, 0, 0] \<and>
   snd (move 2 False (row_board [4, 8, 0, 0])) = row_board [4, 8, 0, 0]"
  by code_simp

section \<open>Inserting a tile\<close>




section \<open>The total of the cells\<close>

lemma sum_list_update_int:
  "k < length xs \<Longrightarrow> sum_list (xs[k := x]) = sum_list xs + x - (xs ! k :: int)"
  by (induction xs arbitrary: k) (auto split: nat.splits)

lemma sum_merge_step:
  assumes "j + 1 < length r"
  shows "sum_list (merge_step j r) = sum_list r"
proof (cases "r ! j = r ! (j + 1) \<and> r ! j \<noteq> 0")
  case True
  from assms have "sum_list (r[j := r ! j * 2, j + 1 := 0]) = sum_list (r[j := r ! j * 2]) - r ! (j + 1)"
    by (simp add: sum_list_update_int)
  also from assms have "sum_list (r[j := r ! j * 2]) = sum_list r + r ! j"
    by (simp add: sum_list_update_int)
  finally show ?thesis using True by (simp add: merge_step_def)
next
  case False
  then show ?thesis by (auto simp: merge_step_def)
qed

lemma sum_merge_row:
  assumes "n \<le> length r"
  shows "sum_list (merge_row n r) = sum_list r"
proof -
  have "length (fold merge_step [0 ..< n - 1] r) = length r \<and>
        sum_list (fold merge_step [0 ..< n - 1] r) = sum_list r"
  proof (rule fold_upt_invariant [where P = "\<lambda>k s. length s = length r \<and> sum_list s = sum_list r"])
    show "length r = length r \<and> sum_list r = sum_list r" by simp
  next
    fix k s
    assume "k < n - 1" and "length s = length r \<and> sum_list s = sum_list r"
    with assms show "length (merge_step k s) = length r \<and> sum_list (merge_step k s) = sum_list r"
      by (simp add: length_merge_step sum_merge_step)
  qed
  then show ?thesis by (simp add: merge_row_def)
qed

lemma sum_nonzeros: "sum_list (filter (\<lambda>x. x \<noteq> 0) r) = sum_list (r :: int list)"
  by (induction r) auto

lemma sum_pack: "sum_list (pack n r) = sum_list r"
  by (simp add: pack_def sum_nonzeros sum_list_replicate)

lemma grid_total_rev_cols: "grid_total (rev_cols g) = grid_total g"
  by (simp add: grid_total_def rev_cols_def comp_def)

lemma grid_total_rev_rows: "grid_total (rev_rows g) = grid_total g"
  by (simp add: grid_total_def rev_rows_def rev_map [symmetric])

lemma sum_columns:
  "\<forall>r \<in> set g. length r = n \<Longrightarrow>
   sum_list (map (\<lambda>j. sum_list (map (\<lambda>r. r ! j) g)) [0 ..< n]) = sum_list (map sum_list (g :: grid))"
proof (induction g)
  case Nil
  then show ?case by simp
next
  case (Cons r g)
  then have len: "length r = n" by simp
  have "sum_list (map (\<lambda>j. sum_list (map (\<lambda>r. r ! j) (r # g))) [0 ..< n])
        = sum_list (map (\<lambda>j. r ! j) [0 ..< n]) + sum_list (map (\<lambda>j. sum_list (map (\<lambda>r. r ! j) g)) [0 ..< n])"
    by (simp add: sum_list_addf)
  also have "map (\<lambda>j. r ! j) [0 ..< n] = r"
    unfolding len [symmetric] by (rule map_nth)
  finally show ?case using Cons by simp
qed

lemma grid_total_transp:
  assumes "rect n n g"
  shows "grid_total (grid_T g) = grid_total g"
proof (cases "n = 0")
  case True
  with assms show ?thesis by (simp add: rect_def grid_T_def ncols_def grid_total_def)
next
  case False
  with assms have "ncols g = n" by (simp add: rect_ncols)
  with assms show ?thesis
    by (simp add: grid_T_def grid_total_def comp_def sum_columns rect_def)
qed

lemma rect_rev_cols: "rect m n g \<Longrightarrow> rect m n (rev_cols g)"
  by (auto simp: rect_def rev_cols_def)

lemma rect_rev_rows: "rect m n g \<Longrightarrow> rect m n (rev_rows g)"
  by (auto simp: rect_def rev_rows_def)

lemma rect_transp:
  assumes "rect n n g"
  shows "rect n n (grid_T g)"
proof (cases "n = 0")
  case True
  with assms show ?thesis by (simp add: rect_def grid_T_def ncols_def)
next
  case False
  with assms have "ncols g = n" by (simp add: rect_ncols)
  with assms show ?thesis by (auto simp: grid_T_def rect_def)
qed

lemma rect_left_ops:
  assumes "rect n n g"
  shows "rect n n (left_ops g (zeros n n) (zeros n n))"
  using assms by (auto simp: left_ops_rows rect_def length_pack length_merge_row)

lemma grid_total_left_ops:
  assumes "rect n n g"
  shows "grid_total (left_ops g (zeros n n) (zeros n n)) = grid_total g"
proof -
  have "sum_list (pack n (merge_row n (pack n r))) = sum_list r" if "r \<in> set g" for r
  proof -
    from that assms have "length r = n" by (simp add: rect_def)
    then have "n \<le> length (pack n r)" by (simp add: length_pack)
    then show ?thesis by (simp add: sum_pack sum_merge_row)
  qed
  then have "map (\<lambda>r. sum_list (pack n (merge_row n (pack n r)))) g = map sum_list g"
    by (intro map_cong) auto
  then have "sum_list (map (\<lambda>r. sum_list (pack n (merge_row n (pack n r)))) g) = sum_list (map sum_list g)"
    by (rule arg_cong)
  then show ?thesis using assms by (simp add: left_ops_rows grid_total_def comp_def)
qed

lemma grid_total_move_grid:
  assumes "wf_board b"
  shows "grid_total (move_grid d b) = grid_total (grid b)"
proof -
  let ?n = "grid_len b"
  let ?L = "\<lambda>g. left_ops g (zeros ?n ?n) (zeros ?n ?n)"
  from assms have g: "rect ?n ?n (grid b)" by (simp add: wf_board_rect)
  have L: "grid_total (?L h) = grid_total h \<and> rect ?n ?n (?L h)" if "rect ?n ?n h" for h
    using that by (simp add: grid_total_left_ops rect_left_ops)
  have T: "grid_total (grid_T h) = grid_total h \<and> rect ?n ?n (grid_T h)" if "rect ?n ?n h" for h
    using that by (simp add: grid_total_transp rect_transp)
  have C: "grid_total (rev_cols h) = grid_total h \<and> rect ?n ?n (rev_cols h)" if "rect ?n ?n h" for h
    using that by (simp add: grid_total_rev_cols rect_rev_cols)
  have R: "grid_total (rev_rows h) = grid_total h \<and> rect ?n ?n (rev_rows h)" if "rect ?n ?n h" for h
    using that by (simp add: grid_total_rev_rows rect_rev_rows)
  have up: "grid_total (rev_cols (grid_T (?L (grid_T (rev_cols (grid b)))))) = grid_total (grid b)"
    using g C T L by metis
  have down: "grid_total (grid_T (rev_cols (?L (rev_cols (grid_T (grid b)))))) = grid_total (grid b)"
    using g C T L by metis
  have left: "grid_total (?L (grid b)) = grid_total (grid b)"
    using g L by metis
  have right: "grid_total (rev_rows (rev_cols (?L (rev_rows (rev_cols (grid b)))))) = grid_total (grid b)"
    using g C R L by metis
  from up down left right show ?thesis
    by (simp add: move_grid_def Let_def)
qed


lemma rect_move_grid:
  assumes "wf_board b"
  shows "rect (grid_len b) (grid_len b) (move_grid d b)"
proof -
  let ?n = "grid_len b"
  let ?L = "\<lambda>g. left_ops g (zeros ?n ?n) (zeros ?n ?n)"
  from assms have g: "rect ?n ?n (grid b)" by (simp add: wf_board_rect)
  have up: "rect ?n ?n (rev_cols (grid_T (?L (grid_T (rev_cols (grid b))))))"
    by (intro rect_rev_cols rect_transp rect_left_ops g)
  have down: "rect ?n ?n (grid_T (rev_cols (?L (rev_cols (grid_T (grid b))))))"
    by (intro rect_rev_cols rect_transp rect_left_ops g)
  have left: "rect ?n ?n (?L (grid b))"
    by (intro rect_left_ops g)
  have right: "rect ?n ?n (rev_rows (rev_cols (?L (rev_rows (rev_cols (grid b))))))"
    by (intro rect_rev_cols rect_rev_rows rect_left_ops g)
  from up down left right g show ?thesis by (simp add: move_grid_def Let_def)
qed

lemma wf_move:
  assumes "wf_board b"
  shows "wf_board (snd (move d f b))"
  using rect_move_grid [OF assms, of d] by (simp add: wf_board_rect move_def Let_def)

text \<open>
  C10. On a well-formed board, \<open>move\<close> in any direction (with either value of
  \<open>get_avail_call\<close>) leaves the sum of all cells unchanged.
\<close>

theorem move_keeps_total:
  assumes "wf_board b"
  shows "grid_total (grid (snd (move d get_avail_call b))) = grid_total (grid b)"
  using grid_total_move_grid [OF assms] by (simp add: move_def Let_def)

theorem move_keeps_total_witness:
  "wf_board mixed_board \<and>
   grid_total (grid (snd (move 0 False mixed_board))) = grid_total (grid mixed_board)"
proof -
  have w: "wf_board mixed_board" by code_simp
  from w move_keeps_total [OF w] show ?thesis by (rule conjI)
qed

section \<open>What move returns\<close>

text \<open>
  C3 as stated: \<open>move(direction)\<close> returns a boolean that tells whether the grid
  changed. The plain call, with \<open>get_avail_call\<close> left at its default, returns
  \<open>None\<close>, also when the grid changes.
\<close>

theorem move_default_returns_none:
  "fst (move 2 False (row_board [2, 2, 4, 4])) = None \<and>
   snd (move 2 False (row_board [2, 2, 4, 4])) = row_board [4, 8, 0, 0] \<and>
   grid (row_board [4, 8, 0, 0]) \<noteq> grid (row_board [2, 2, 4, 4])"
proof -
  have "fst (move 2 False (row_board [2, 2, 4, 4])) = None"
    by code_simp
  moreover have "snd (move 2 False (row_board [2, 2, 4, 4])) = row_board [4, 8, 0, 0]"
    by code_simp
  ultimately show ?thesis by (simp add: row_board_def)
qed

text \<open>
  C3, amended: on a well-formed board, \<open>move(direction, True)\<close> returns a boolean that
  is true exactly when the new grid differs from the old one; \<open>move(direction)\<close> returns
  \<open>None\<close>; both leave the same new grid in the board, which stays well-formed with
  \<open>grid_len\<close> as it was.
\<close>

theorem move_result:
  assumes "wf_board b"
  shows "fst (move d True b) = Some (grid (snd (move d True b)) \<noteq> grid b) \<and>
         fst (move d False b) = None \<and>
         snd (move d False b) = snd (move d True b) \<and>
         grid_len (snd (move d True b)) = grid_len b \<and>
         wf_board (snd (move d True b))"
  using wf_move [OF assms, of d True]
  by (auto simp: move_def clone_def GameBoard_def Let_def)

theorem move_result_witness:
  "wf_board mixed_board \<and>
   fst (move 0 True mixed_board) = Some (grid (snd (move 0 True mixed_board)) \<noteq> grid mixed_board) \<and>
   fst (move 0 False mixed_board) = None \<and>
   snd (move 0 False mixed_board) = snd (move 0 True mixed_board) \<and>
   grid_len (snd (move 0 True mixed_board)) = grid_len mixed_board \<and>
   wf_board (snd (move 0 True mixed_board)) \<and>
   fst (move 0 True mixed_board) = Some True"
proof -
  have w: "wf_board mixed_board" by code_simp
  have t: "fst (move 0 True mixed_board) = Some True" by code_simp
  from w t move_result [OF w, of 0] show ?thesis by blast
qed

section \<open>The score of a move\<close>

text \<open>
  C4. \<open>calculate_move_score\<close> adds up every cell that is non-zero and larger than the
  cell of the prior grid at its place. For the moves Left on 2 2 0 0 and on 4 4 4 4 this
  is the value of the merged tiles, 4 and 16. On the row 2 0 0 0, move Right is legal and
  merges nothing: the tile slides to the last column, where the prior grid held 0, and
  \<open>calculate_move_score\<close> counts it, giving 2 where the merged value is 0.
\<close>

theorem calculate_move_score_counts_slide:
  "get_available_moves (row_board [2, 0, 0, 0]) = [1, 3] \<and>
   snd (move 3 False (row_board [2, 0, 0, 0])) = row_board [0, 0, 0, 2] \<and>
   calculate_move_score (row_board [0, 0, 0, 2]) (grid (row_board [2, 0, 0, 0])) = 2 \<and>
   merged_value 3 (row_board [2, 0, 0, 0]) = 0 \<and>
   calculate_move_score (snd (move 2 False (row_board [2, 2, 0, 0]))) (grid (row_board [2, 2, 0, 0])) = 4 \<and>
   merged_value 2 (row_board [2, 2, 0, 0]) = 4 \<and>
   calculate_move_score (snd (move 2 False (row_board [4, 4, 4, 4]))) (grid (row_board [4, 4, 4, 4])) = 16 \<and>
   merged_value 2 (row_board [4, 4, 4, 4]) = 16"
proof -
  have "get_available_moves (row_board [2, 0, 0, 0]) = [1, 3]" by code_simp
  moreover have "snd (move 3 False (row_board [2, 0, 0, 0])) = row_board [0, 0, 0, 2]" by code_simp
  moreover have "calculate_move_score (row_board [0, 0, 0, 2]) (grid (row_board [2, 0, 0, 0])) = 2"
    by code_simp
  moreover have "merged_value 3 (row_board [2, 0, 0, 0]) = 0" by code_simp
  moreover have "calculate_move_score (snd (move 2 False (row_board [2, 2, 0, 0])))
                   (grid (row_board [2, 2, 0, 0])) = 4" by code_simp
  moreover have "merged_value 2 (row_board [2, 2, 0, 0]) = 4" by code_simp
  moreover have "calculate_move_score (snd (move 2 False (row_board [4, 4, 4, 4])))
                   (grid (row_board [4, 4, 4, 4])) = 16" by code_simp
  moreover have "merged_value 2 (row_board [4, 4, 4, 4]) = 16" by code_simp
  ultimately show ?thesis by blast
qed

section \<open>The zero scan and the available moves\<close>

lemma scan_cell_fields:
  "lc (scan_cell a i j s) = (lc s \<or> (a ! i ! j > 0 \<and> saw_0 s))"
  "rc (scan_cell a i j s) = (rc s \<or> (a ! i ! j = 0 \<and> saw_1 s))"
  "uc (scan_cell a i j s) = (uc s \<or> (a ! i ! j > 0 \<and> v_saw_0 s ! j))"
  "dc (scan_cell a i j s) = (dc s \<or> (a ! i ! j = 0 \<and> v_saw_1 s ! j))"
  "saw_0 (scan_cell a i j s) = (saw_0 s \<or> a ! i ! j = 0)"
  "saw_1 (scan_cell a i j s) = (saw_1 s \<or> a ! i ! j > 0)"
  "v_saw_0 (scan_cell a i j s) = (if a ! i ! j = 0 then (v_saw_0 s)[j := True] else v_saw_0 s)"
  "v_saw_1 (scan_cell a i j s) = (if a ! i ! j > 0 then (v_saw_1 s)[j := True] else v_saw_1 s)"
  by (auto simp: scan_cell_def scan_zero_def scan_pos_def Let_def)

lemma scan_inv_cell:
  assumes inv: "scan_inv a i k s" and i: "i < nrows a" and k: "k < ncols a"
  shows "scan_inv a i (Suc k) (scan_cell a i k s)"
proof -
  let ?s = "scan_cell a i k s"
  have l: "lc ?s \<longrightarrow> gap_left a"
  proof
    assume "lc ?s"
    then consider "lc s" | "a ! i ! k > 0" "saw_0 s" by (auto simp: scan_cell_fields)
    then show "gap_left a"
    proof cases
      case 1 with inv show ?thesis by (simp add: scan_inv_def)
    next
      case 2
      with inv obtain j where "j < k" "a ! i ! j = 0" by (auto simp: scan_inv_def)
      with 2 i k show ?thesis unfolding gap_left_def by blast
    qed
  qed
  have r: "rc ?s \<longrightarrow> gap_right a"
  proof
    assume "rc ?s"
    then consider "rc s" | "a ! i ! k = 0" "saw_1 s" by (auto simp: scan_cell_fields)
    then show "gap_right a"
    proof cases
      case 1 with inv show ?thesis by (simp add: scan_inv_def)
    next
      case 2
      with inv obtain j where "j < k" "a ! i ! j > 0" by (auto simp: scan_inv_def)
      with 2 i k show ?thesis unfolding gap_right_def by blast
    qed
  qed
  have u: "uc ?s \<longrightarrow> gap_up a"
  proof
    assume "uc ?s"
    then consider "uc s" | "a ! i ! k > 0" "v_saw_0 s ! k" by (auto simp: scan_cell_fields)
    then show "gap_up a"
    proof cases
      case 1 with inv show ?thesis by (simp add: scan_inv_def)
    next
      case 2
      with inv k obtain i' where "seen i k i' k" "a ! i' ! k = 0" by (auto simp: scan_inv_def)
      then have "i' < i" by (simp add: seen_def)
      with 2 i k \<open>a ! i' ! k = 0\<close> show ?thesis unfolding gap_up_def by blast
    qed
  qed
  have d: "dc ?s \<longrightarrow> gap_down a"
  proof
    assume "dc ?s"
    then consider "dc s" | "a ! i ! k = 0" "v_saw_1 s ! k" by (auto simp: scan_cell_fields)
    then show "gap_down a"
    proof cases
      case 1 with inv show ?thesis by (simp add: scan_inv_def)
    next
      case 2
      with inv k obtain i' where "seen i k i' k" "a ! i' ! k > 0" by (auto simp: scan_inv_def)
      then have "i' < i" by (simp add: seen_def)
      with 2 i k \<open>a ! i' ! k > 0\<close> show ?thesis unfolding gap_down_def by blast
    qed
  qed
  have s0: "saw_0 ?s \<longrightarrow> (\<exists>j<Suc k. a ! i ! j = 0)"
    using inv by (auto simp: scan_cell_fields scan_inv_def less_Suc_eq)
  have s1: "saw_1 ?s \<longrightarrow> (\<exists>j<Suc k. a ! i ! j > 0)"
    using inv by (auto simp: scan_cell_fields scan_inv_def less_Suc_eq)
  have len: "length (v_saw_0 ?s) = ncols a \<and> length (v_saw_1 ?s) = ncols a"
    using inv by (simp add: scan_cell_fields scan_inv_def)
  have mono: "seen i k i' c \<Longrightarrow> seen i (Suc k) i' c" for i' c
    by (auto simp: seen_def)
  have here: "seen i (Suc k) i k" by (simp add: seen_def)
  have v0: "\<exists>i'. seen i (Suc k) i' c \<and> a ! i' ! c = 0" if "c < ncols a" "v_saw_0 ?s ! c" for c
  proof (cases "c = k \<and> a ! i ! k = 0")
    case True
    with here show ?thesis by blast
  next
    case False
    with that inv have "v_saw_0 s ! c"
      by (auto simp: scan_cell_fields scan_inv_def nth_list_update split: if_splits)
    with that inv obtain i' where "seen i k i' c" "a ! i' ! c = 0" by (auto simp: scan_inv_def)
    with mono show ?thesis by blast
  qed
  have v1: "\<exists>i'. seen i (Suc k) i' c \<and> a ! i' ! c > 0" if "c < ncols a" "v_saw_1 ?s ! c" for c
  proof (cases "c = k \<and> a ! i ! k > 0")
    case True
    with here show ?thesis by blast
  next
    case False
    with that inv have "v_saw_1 s ! c"
      by (auto simp: scan_cell_fields scan_inv_def nth_list_update split: if_splits)
    with that inv obtain i' where "seen i k i' c" "a ! i' ! c > 0" by (auto simp: scan_inv_def)
    with mono show ?thesis by blast
  qed
  from l r u d s0 s1 len v0 v1 show ?thesis
    unfolding scan_inv_def by blast
qed

lemma scan_inv_next_row:
  assumes "scan_inv a i (ncols a) s"
  shows "scan_inv a (Suc i) 0 (s\<lparr>saw_0 := False, saw_1 := False\<rparr>)"
proof -
  have "seen i (ncols a) i' c \<Longrightarrow> c < ncols a \<Longrightarrow> seen (Suc i) 0 i' c" for i' c
    by (auto simp: seen_def)
  with assms show ?thesis
    unfolding scan_inv_def by (simp (no_asm_use)) blast
qed

lemma scan_inv_row:
  assumes "scan_inv a i 0 (s\<lparr>saw_0 := False, saw_1 := False\<rparr>)" and "i < nrows a"
  shows "scan_inv a (Suc i) 0 ((scan_row a i s)\<lparr>saw_0 := False, saw_1 := False\<rparr>)"
proof -
  have "scan_inv a i (ncols a) (fold (scan_cell a i) [0 ..< ncols a] (s\<lparr>saw_0 := False, saw_1 := False\<rparr>))"
    using assms by (intro fold_upt_invariant [where P = "scan_inv a i"]) (simp_all add: scan_inv_cell)
  then show ?thesis unfolding scan_row_def by (rule scan_inv_next_row)
qed

lemma scan_inv_init: "scan_inv a 0 0 ((scan_init a)\<lparr>saw_0 := False, saw_1 := False\<rparr>)"
  by (simp add: scan_inv_def scan_init_def)

lemma scan_inv_final:
  "scan_inv a (nrows a) 0 ((fold (scan_row a) [0 ..< nrows a] (scan_init a))\<lparr>saw_0 := False, saw_1 := False\<rparr>)"
  by (rule fold_upt_invariant [where P = "\<lambda>i s. scan_inv a i 0 (s\<lparr>saw_0 := False, saw_1 := False\<rparr>)"])
     (simp_all add: scan_inv_init scan_inv_row)

lemma flags_sound:
  "get_available_from_zeros a ! 0 \<Longrightarrow> gap_up a"
  "get_available_from_zeros a ! 1 \<Longrightarrow> gap_down a"
  "get_available_from_zeros a ! 2 \<Longrightarrow> gap_left a"
  "get_available_from_zeros a ! 3 \<Longrightarrow> gap_right a"
  using scan_inv_final [of a]
  by (simp_all add: get_available_from_zeros_def Let_def scan_inv_def)

lemma grid_T_nth:
  assumes "rect n n g" and "i < n" and "j < n"
  shows "grid_T g ! i ! j = g ! j ! i"
proof -
  from assms have "ncols g = n" by (simp add: rect_ncols)
  with assms show ?thesis by (simp add: grid_T_def rect_def)
qed

lemma rev_cols_nth:
  assumes "rect n n g" and "i < n" and "j < n"
  shows "rev_cols g ! i ! j = g ! i ! (n - Suc j)"
  using assms by (simp add: rev_cols_def rect_def rev_nth)

lemma rev_rows_nth:
  assumes "rect n n g" and "i < n"
  shows "rev_rows g ! i = g ! (n - Suc i)"
  using assms by (simp add: rev_rows_def rect_def rev_nth)

lemma rect_eqI:
  assumes "rect n n g" and "rect n n h" and "\<And>i j. i < n \<Longrightarrow> j < n \<Longrightarrow> g ! i ! j = h ! i ! j"
  shows "g = h"
proof (rule nth_equalityI)
  from assms show "length g = length h" by (simp add: rect_def)
next
  fix i assume "i < length g"
  with assms have i: "i < n" by (simp add: rect_def)
  show "g ! i = h ! i"
  proof (rule nth_equalityI)
    from assms i show "length (g ! i) = length (h ! i)" by (simp add: rect_nth)
  next
    fix j assume "j < length (g ! i)"
    with assms i have "j < n" by (simp add: rect_nth)
    with assms i show "g ! i ! j = h ! i ! j" by simp
  qed
qed

lemma grid_T_grid_T:
  assumes "rect n n g"
  shows "grid_T (grid_T g) = g"
proof (rule rect_eqI [of n])
  from assms have t: "rect n n (grid_T g)" by (rule rect_transp)
  then show "rect n n (grid_T (grid_T g))" by (rule rect_transp)
  show "rect n n g" by (rule assms)
  fix i j assume ij: "i < n" "j < n"
  with t have "grid_T (grid_T g) ! i ! j = grid_T g ! j ! i" by (rule grid_T_nth)
  also from assms ij have "\<dots> = g ! i ! j" by (simp add: grid_T_nth)
  finally show "grid_T (grid_T g) ! i ! j = g ! i ! j" .
qed

lemma rev_cols_rev_cols: "rev_cols (rev_cols g) = g"
  by (simp add: rev_cols_def comp_def)

lemma rev_rows_rev_rows: "rev_rows (rev_rows g) = g"
  by (simp add: rev_rows_def)

lemma pack_packed: "\<not> zero_before_tile (pack n r)"
proof
  let ?nz = "filter (\<lambda>x. x \<noteq> 0) r"
  assume "zero_before_tile (pack n r)"
  then obtain j1 j2 where j: "j1 < j2" "j2 < length (pack n r)"
    and z: "pack n r ! j1 = 0" and t: "pack n r ! j2 \<noteq> 0"
    by (auto simp: zero_before_tile_def)
  have "\<not> j1 < length ?nz"
  proof
    assume lt: "j1 < length ?nz"
    then have "?nz ! j1 \<in> set ?nz" by (rule nth_mem)
    then have "?nz ! j1 \<noteq> 0" by simp
    with lt z show False by (simp add: pack_def nth_append)
  qed
  with j have "\<not> j2 < length ?nz" and "j2 - length ?nz < n - length ?nz"
    by (auto simp: pack_def)
  then have "pack n r ! j2 = 0" by (simp add: pack_def nth_append)
  with t show False by simp
qed

lemma left_ops_changes:
  assumes "rect n n g" and "i < n" and "zero_before_tile (g ! i)"
  shows "left_ops g (zeros n n) (zeros n n) \<noteq> g"
proof
  assume "left_ops g (zeros n n) (zeros n n) = g"
  with assms(1) have "map (\<lambda>r. pack n (merge_row n (pack n r))) g = g"
    by (simp add: left_ops_rows)
  then have "map (\<lambda>r. pack n (merge_row n (pack n r))) g ! i = g ! i" by simp
  with assms have "pack n (merge_row n (pack n (g ! i))) = g ! i" by (simp add: rect_def)
  with pack_packed [of n "merge_row n (pack n (g ! i))"] assms(3) show False by simp
qed

lemma gap_up_row:
  assumes g: "rect n n g" and gap: "gap_up g"
  shows "\<exists>i<n. zero_before_tile (grid_T (rev_cols g) ! i)"
proof -
  from gap obtain j i1 i2 where j: "j < ncols g" and i: "i1 < i2" "i2 < nrows g"
    and z: "g ! i1 ! j = 0" and t: "g ! i2 ! j > 0"
    by (auto simp: gap_up_def)
  from i g have n: "0 < n" "i2 < n" "i1 < n" by (auto simp: nrows_def rect_def)
  with g j have jn: "j < n" by (simp add: rect_ncols)
  let ?h = "grid_T (rev_cols g)"
  let ?r = "n - Suc j"
  from g have rc: "rect n n (rev_cols g)" by (rule rect_rev_cols)
  then have h: "rect n n ?h" by (rule rect_transp)
  from jn have r: "?r < n" and inv_r: "n - Suc ?r = j" by auto
  have cell: "?h ! ?r ! c = g ! c ! j" if "c < n" for c
    using that r inv_r g rc by (simp add: grid_T_nth rev_cols_nth)
  from h r have "length (?h ! ?r) = n" by (simp add: rect_nth)
  with i n z t cell have "zero_before_tile (?h ! ?r)"
    unfolding zero_before_tile_def by (intro exI [of _ i1] exI [of _ i2]) simp
  with r show ?thesis by blast
qed

lemma gap_down_row:
  assumes g: "rect n n g" and gap: "gap_down g"
  shows "\<exists>i<n. zero_before_tile (rev_cols (grid_T g) ! i)"
proof -
  from gap obtain j i1 i2 where j: "j < ncols g" and i: "i1 < i2" "i2 < nrows g"
    and t: "g ! i1 ! j > 0" and z: "g ! i2 ! j = 0"
    by (auto simp: gap_down_def)
  from i g have n: "0 < n" "i2 < n" "i1 < n" by (auto simp: nrows_def rect_def)
  with g j have jn: "j < n" by (simp add: rect_ncols)
  let ?h = "rev_cols (grid_T g)"
  from g have tr: "rect n n (grid_T g)" by (rule rect_transp)
  then have h: "rect n n ?h" by (rule rect_rev_cols)
  have cell: "?h ! j ! c = g ! (n - Suc c) ! j" if "c < n" for c
    using that jn g tr by (simp add: grid_T_nth rev_cols_nth)
  let ?c1 = "n - Suc i2" and ?c2 = "n - Suc i1"
  from n i have c: "?c1 < ?c2" "?c2 < n" "?c1 < n" "n - Suc ?c1 = i2" "n - Suc ?c2 = i1" by auto
  from h jn have "length (?h ! j) = n" by (simp add: rect_nth)
  with c z t cell have "zero_before_tile (?h ! j)"
    unfolding zero_before_tile_def by (intro exI [of _ ?c1] exI [of _ ?c2]) simp
  with jn show ?thesis by blast
qed

lemma gap_left_row:
  assumes g: "rect n n g" and gap: "gap_left g"
  shows "\<exists>i<n. zero_before_tile (g ! i)"
proof -
  from gap obtain i j1 j2 where i: "i < nrows g" and j: "j1 < j2" "j2 < ncols g"
    and z: "g ! i ! j1 = 0" and t: "g ! i ! j2 > 0"
    by (auto simp: gap_left_def)
  from i g have n: "0 < n" "i < n" by (auto simp: nrows_def rect_def)
  with g j have jn: "j2 < n" by (simp add: rect_ncols)
  from g n have "length (g ! i) = n" by (simp add: rect_nth)
  with j jn z t have "zero_before_tile (g ! i)"
    unfolding zero_before_tile_def by (intro exI [of _ j1] exI [of _ j2]) simp
  with n show ?thesis by blast
qed

lemma gap_right_row:
  assumes g: "rect n n g" and gap: "gap_right g"
  shows "\<exists>i<n. zero_before_tile (rev_rows (rev_cols g) ! i)"
proof -
  from gap obtain i j1 j2 where i: "i < nrows g" and j: "j1 < j2" "j2 < ncols g"
    and t: "g ! i ! j1 > 0" and z: "g ! i ! j2 = 0"
    by (auto simp: gap_right_def)
  from i g have n: "0 < n" "i < n" by (auto simp: nrows_def rect_def)
  with g j have jn: "j2 < n" "j1 < n" by (simp_all add: rect_ncols)
  let ?h = "rev_rows (rev_cols g)"
  let ?r = "n - Suc i"
  from g have rc: "rect n n (rev_cols g)" by (rule rect_rev_cols)
  then have h: "rect n n ?h" by (rule rect_rev_rows)
  from n have r: "?r < n" and inv_r: "n - Suc ?r = i" by auto
  have cell: "?h ! ?r ! c = g ! i ! (n - Suc c)" if "c < n" for c
    using that r inv_r n g rc by (simp add: rev_rows_nth rev_cols_nth)
  let ?c1 = "n - Suc j2" and ?c2 = "n - Suc j1"
  from jn j have c: "?c1 < ?c2" "?c2 < n" "?c1 < n" "n - Suc ?c1 = j2" "n - Suc ?c2 = j1" by auto
  from h r have "length (?h ! ?r) = n" by (simp add: rect_nth)
  with c z t cell have "zero_before_tile (?h ! ?r)"
    unfolding zero_before_tile_def by (intro exI [of _ ?c1] exI [of _ ?c2]) simp
  with r show ?thesis by blast
qed

lemma flag_move_changes:
  assumes wf: "wf_board b" and d: "d < 4" and flag: "get_available_from_zeros (grid b) ! d"
  shows "move_grid d b \<noteq> grid b"
proof -
  let ?n = "grid_len b"
  let ?g = "grid b"
  let ?L = "\<lambda>g. left_ops g (zeros ?n ?n) (zeros ?n ?n)"
  from wf have g: "rect ?n ?n ?g" by (simp add: wf_board_rect)
  from d consider "d = 0" | "d = 1" | "d = 2" | "d = 3" by linarith
  then show ?thesis
  proof cases
    case 1
    let ?x = "grid_T (rev_cols ?g)"
    from g have x: "rect ?n ?n ?x" by (simp add: rect_rev_cols rect_transp)
    from flag 1 have "gap_up ?g" by (simp add: flags_sound)
    with g obtain i where "i < ?n" "zero_before_tile (?x ! i)" using gap_up_row by blast
    with x have ne: "?L ?x \<noteq> ?x" by (rule left_ops_changes)
    have "?L ?x = ?x" if "rev_cols (grid_T (?L ?x)) = ?g"
    proof -
      from that have "grid_T (rev_cols (rev_cols (grid_T (?L ?x)))) = ?x" by simp
      moreover have "grid_T (grid_T (?L ?x)) = ?L ?x"
        by (rule grid_T_grid_T [OF rect_left_ops [OF x]])
      ultimately show ?thesis by (simp add: rev_cols_rev_cols)
    qed
    with ne 1 show ?thesis by (auto simp: move_grid_def Let_def)
  next
    case 2
    let ?x = "rev_cols (grid_T ?g)"
    from g have x: "rect ?n ?n ?x" by (simp add: rect_rev_cols rect_transp)
    from flag 2 have "gap_down ?g" by (simp add: flags_sound)
    with g obtain i where "i < ?n" "zero_before_tile (?x ! i)" using gap_down_row by blast
    with x have ne: "?L ?x \<noteq> ?x" by (rule left_ops_changes)
    have "?L ?x = ?x" if "grid_T (rev_cols (?L ?x)) = ?g"
    proof -
      from that have "rev_cols (grid_T (grid_T (rev_cols (?L ?x)))) = ?x" by simp
      moreover have "grid_T (grid_T (rev_cols (?L ?x))) = rev_cols (?L ?x)"
        by (rule grid_T_grid_T [OF rect_rev_cols [OF rect_left_ops [OF x]]])
      ultimately show ?thesis by (simp add: rev_cols_rev_cols)
    qed
    with ne 2 show ?thesis by (auto simp: move_grid_def Let_def)
  next
    case 3
    from flag 3 have "gap_left ?g" by (simp add: flags_sound)
    with g obtain i where "i < ?n" "zero_before_tile (?g ! i)" using gap_left_row by blast
    with g have "?L ?g \<noteq> ?g" by (rule left_ops_changes)
    with 3 show ?thesis by (simp add: move_grid_def Let_def)
  next
    case 4
    let ?x = "rev_rows (rev_cols ?g)"
    from g have x: "rect ?n ?n ?x" by (simp add: rect_rev_cols rect_rev_rows)
    from flag 4 have "gap_right ?g" by (simp add: flags_sound)
    with g obtain i where "i < ?n" "zero_before_tile (?x ! i)" using gap_right_row by blast
    with x have ne: "?L ?x \<noteq> ?x" by (rule left_ops_changes)
    have "?L ?x = ?x" if "rev_rows (rev_cols (?L ?x)) = ?g"
    proof -
      from that have "rev_rows (rev_cols (rev_rows (rev_cols (?L ?x)))) = ?x" by simp
      then show ?thesis
        by (simp add: rev_cols_rev_cols rev_rows_rev_rows rev_rows_def rev_cols_def rev_map)
    qed
    with ne 4 show ?thesis by (auto simp: move_grid_def Let_def)
  qed
qed

lemma move_check_filter:
  assumes "wf_board b" and "x < 4"
  shows "move_check b (get_available_from_zeros (grid b)) x acc =
         (if grid (snd (move x False (clone b))) \<noteq> grid (clone b) then acc @ [x] else acc)"
proof -
  have c: "clone b = b" by (simp add: clone_def GameBoard_def)
  have m: "grid (snd (move x f b)) = move_grid x b" for f by (simp add: move_def Let_def)
  have t: "fst (move x True b) = Some True \<longleftrightarrow> move_grid x b \<noteq> grid b"
    by (auto simp: move_def Let_def c)
  from flag_move_changes [OF assms] show ?thesis
    by (auto simp: move_check_def c m t)
qed

text \<open>
  C1. On a well-formed board, \<open>get_available_moves\<close> returns exactly the directions
  whose move, applied to a clone, changes the grid, in the order 0 (Up), 1 (Down),
  2 (Left), 3 (Right): a flag of the zero scan is set only when the move changes the
  grid, and without the flag the move is simulated.
\<close>

theorem get_available_moves_exact:
  assumes "wf_board b"
  shows "get_available_moves b =
         filter (\<lambda>d. grid (snd (move d False (clone b))) \<noteq> grid (clone b)) [0, 1, 2, 3]"
proof -
  have dirs: "generate_dirs (grid_len b) = [0, 1, 2, 3]"
    by (simp add: generate_dirs_def upt_rec)
  show ?thesis
    unfolding get_available_moves_def Let_def dirs
    by (simp add: move_check_filter [OF assms])
qed

theorem get_available_moves_exact_witness:
  "wf_board (row_board [2, 2, 4, 4]) \<and>
   get_available_moves (row_board [2, 2, 4, 4]) =
     filter (\<lambda>d. grid (snd (move d False (clone (row_board [2, 2, 4, 4])))) \<noteq>
                  grid (clone (row_board [2, 2, 4, 4]))) [0, 1, 2, 3] \<and>
   get_available_from_zeros (grid (row_board [2, 2, 4, 4])) = [False, True, False, False] \<and>
   get_available_moves (row_board [2, 2, 4, 4]) = [1, 2, 3]"
proof -
  have w: "wf_board (row_board [2, 2, 4, 4])" by code_simp
  have f: "get_available_from_zeros (grid (row_board [2, 2, 4, 4])) = [False, True, False, False]"
    by code_simp
  have m: "get_available_moves (row_board [2, 2, 4, 4]) = [1, 2, 3]" by code_simp
  from w get_available_moves_exact [OF w] f m show ?thesis by blast
qed

section \<open>Expectimax\<close>

lemma chance_max_depth_4: "chance_max_depth 4 = 5"
  by (simp add: chance_max_depth_def)

lemma maximize_no_moves:
  assumes "depth < max_depth" and "get_available_moves b = []"
  shows "maximize b depth max_depth = (None, (NegInf, 0, 0, 0))"
  using assms by (simp add: maximize.simps)

lemma chance_last_cell_dead:
  assumes cells: "get_available_cells b = [c]" and len: "1 < grid_len b * 2" and d: "depth < 2"
    and dead2: "get_available_moves (put_tile (clone b) c 2) = []"
    and dead4: "get_available_moves (put_tile (clone b) c 4) = []"
  shows "chance b depth = (NegInf, 0, 0, 0)"
proof -
  from d have d1: "depth + 1 < 3" by simp
  have m2: "maximize (put_tile (clone b) c 2) (depth + 1) 3 = (None, (NegInf, 0, 0, 0))"
    using d1 dead2 by (rule maximize_no_moves)
  have m4: "maximize (put_tile (clone b) c 4) (depth + 1) 3 = (None, (NegInf, 0, 0, 0))"
    using d1 dead4 by (rule maximize_no_moves)
  have "chance b depth =
        chance_step (snd (maximize (put_tile (clone b) c 4) (depth + 1) 3)) (0.1 * (1 / real 1))
          (chance_step (snd (maximize (put_tile (clone b) c 2) (depth + 1) 3)) (0.9 * (1 / real 1))
             (Fin 0, 0, 0, 0))"
    using cells len by (subst chance.simps) (simp add: Let_def possible_tiles_def)
  then show ?thesis by (simp add: m2 [simplified] m4 [simplified] chance_step_def)
qed

lemma distinct_moves: "get_available_moves distinct_board = [0, 2]"
  by code_simp

lemma distinct_move_up: "snd (move 0 False (clone distinct_board)) = distinct_up"
  by code_simp

lemma distinct_move_left: "snd (move 2 False (clone distinct_board)) = distinct_left"
  by code_simp

lemma chance_distinct_up: "chance distinct_up 1 = (NegInf, 0, 0, 0)"
proof (rule chance_last_cell_dead)
  show "get_available_cells distinct_up = [(3, 0)]" by code_simp
  show "1 < grid_len distinct_up * 2" by code_simp
  show "(1::nat) < 2" by simp
  show "get_available_moves (put_tile (clone distinct_up) (3, 0) 2) = []" by code_simp
  show "get_available_moves (put_tile (clone distinct_up) (3, 0) 4) = []" by code_simp
qed

lemma chance_distinct_left: "chance distinct_left 1 = (NegInf, 0, 0, 0)"
proof (rule chance_last_cell_dead)
  show "get_available_cells distinct_left = [(0, 3)]" by code_simp
  show "1 < grid_len distinct_left * 2" by code_simp
  show "(1::nat) < 2" by simp
  show "get_available_moves (put_tile (clone distinct_left) (0, 3) 2) = []" by code_simp
  show "get_available_moves (put_tile (clone distinct_left) (0, 3) 4) = []" by code_simp
qed

lemma maximize_distinct: "maximize distinct_board 0 3 = (Some 2, (NegInf, 0, 0, 0))"
  by (subst maximize.simps)
     (simp add: Let_def distinct_moves distinct_move_up distinct_move_left
        chance_distinct_up [simplified] chance_distinct_left [simplified] maximize_step_def)

text \<open>
  C5 as stated: when two legal moves have utility tuples with equal first components,
  \<open>maximize\<close> keeps the first one. On this board the legal moves are 0 (Up) and 2
  (Left); after either, the one empty cell filled with a 2 or a 4 leaves no legal move,
  so both utilities have first component minus infinity. \<open>maximize\<close> returns 2, the
  later move.
\<close>

theorem maximize_tie_keeps_later:
  "get_available_moves distinct_board = [0, 2] \<and>
   chance (snd (move 0 False (clone distinct_board))) 1 = (NegInf, 0, 0, 0) \<and>
   chance (snd (move 2 False (clone distinct_board))) 1 = (NegInf, 0, 0, 0) \<and>
   maximize distinct_board 0 3 = (Some 2, (NegInf, 0, 0, 0))"
  unfolding distinct_move_up distinct_move_left
  using distinct_moves chance_distinct_up chance_distinct_left maximize_distinct by blast

lemma score_ge_refl: "score_ge x x"
  by (cases x) simp_all

lemma score_ge_trans: "score_ge x y \<Longrightarrow> score_ge y z \<Longrightarrow> score_ge x z"
  by (cases x; cases y; cases z) simp_all

lemma score_ge_total: "score_ge x y \<or> score_ge y x"
  by (cases x; cases y) auto

lemma fold_maximize_step:
  assumes "ms \<noteq> []"
  shows "\<exists>k<length ms.
           fold (\<lambda>m s. maximize_step m (U m) s) ms ((NegInf, 0, 0, 0), None) = (U (ms ! k), Some (ms ! k)) \<and>
           (\<forall>j<length ms. score_ge (fst (U (ms ! k))) (fst (U (ms ! j)))) \<and>
           (\<forall>j. k < j \<and> j < length ms \<longrightarrow> \<not> score_ge (fst (U (ms ! j))) (fst (U (ms ! k))))"
  using assms
proof (induction ms rule: rev_induct)
  case Nil
  then show ?case by simp
next
  case (snoc m ms)
  let ?f = "\<lambda>m s. maximize_step m (U m) s"
  let ?init = "((NegInf, 0, 0, 0), None) :: util \<times> nat option"
  show ?case
  proof (cases "ms = []")
    case True
    have "fold ?f [m] ?init = (U m, Some m)" by (simp add: maximize_step_def)
    with True show ?thesis by (simp add: score_ge_refl)
  next
    case False
    with snoc.IH obtain k where k: "k < length ms"
      and res: "fold ?f ms ?init = (U (ms ! k), Some (ms ! k))"
      and best: "\<forall>j<length ms. score_ge (fst (U (ms ! k))) (fst (U (ms ! j)))"
      and later: "\<forall>j. k < j \<and> j < length ms \<longrightarrow> \<not> score_ge (fst (U (ms ! j))) (fst (U (ms ! k)))"
      by blast
    show ?thesis
    proof (cases "score_ge (fst (U m)) (fst (U (ms ! k)))")
      case True
      let ?k = "length ms"
      have r: "fold ?f (ms @ [m]) ?init = (U ((ms @ [m]) ! ?k), Some ((ms @ [m]) ! ?k))"
        using True res by (simp add: maximize_step_def)
      have b: "score_ge (fst (U ((ms @ [m]) ! ?k))) (fst (U ((ms @ [m]) ! j)))"
        if "j < length (ms @ [m])" for j
      proof (cases "j < length ms")
        case True
        with best have "score_ge (fst (U (ms ! k))) (fst (U (ms ! j)))" by simp
        with \<open>score_ge (fst (U m)) (fst (U (ms ! k)))\<close> True show ?thesis
          by (auto simp: nth_append intro: score_ge_trans)
      next
        case False
        with that have "j = length ms" by simp
        then show ?thesis by (simp add: score_ge_refl)
      qed
      from r b show ?thesis
        by (intro exI [of _ ?k]) auto
    next
      case False
      have r: "fold ?f (ms @ [m]) ?init = (U ((ms @ [m]) ! k), Some ((ms @ [m]) ! k))"
        using False res k by (simp add: maximize_step_def nth_append)
      from False score_ge_total have ge: "score_ge (fst (U (ms ! k))) (fst (U m))" by blast
      have b: "score_ge (fst (U ((ms @ [m]) ! k))) (fst (U ((ms @ [m]) ! j)))"
        if "j < length (ms @ [m])" for j
      proof (cases "j < length ms")
        case True
        with best k show ?thesis by (simp add: nth_append)
      next
        case False
        with that have "j = length ms" by simp
        with ge k show ?thesis by (simp add: nth_append)
      qed
      have l: "\<not> score_ge (fst (U ((ms @ [m]) ! j))) (fst (U ((ms @ [m]) ! k)))"
        if "k < j" "j < length (ms @ [m])" for j
      proof (cases "j < length ms")
        case True
        with later that k show ?thesis by (simp add: nth_append)
      next
        case False
        with that have "j = length ms" by simp
        with \<open>\<not> score_ge (fst (U m)) (fst (U (ms ! k)))\<close> k show ?thesis by (simp add: nth_append)
      qed
      from k r b l show ?thesis
        by (intro exI [of _ k]) auto
    qed
  qed
qed

lemma maximize_fold:
  assumes "depth < max_depth"
  shows "maximize b depth max_depth =
         (let r = fold (\<lambda>m s. maximize_step m (move_utility b depth m) s)
                       (get_available_moves b) ((NegInf, 0, 0, 0), None)
          in (snd r, fst r))"
  using assms
  by (subst maximize.simps) (simp add: Let_def fold_map comp_def move_utility_def)

text \<open>
  C5, amended: below the depth limit and with a legal move, \<open>maximize\<close> returns a legal
  move together with its utility; the first component of that utility is greater than or
  equal to that of every legal move, and strictly greater than that of every legal move
  enumerated after it. So among moves that tie for the greatest first component the last
  one encountered is kept (the comparison is \<open>>=\<close>).
\<close>

theorem maximize_keeps_last_best:
  assumes "depth < max_depth" and "get_available_moves b \<noteq> []"
  shows "\<exists>k<length (get_available_moves b).
           maximize b depth max_depth =
             (Some (get_available_moves b ! k), move_utility b depth (get_available_moves b ! k)) \<and>
           (\<forall>j<length (get_available_moves b).
              score_ge (fst (move_utility b depth (get_available_moves b ! k)))
                       (fst (move_utility b depth (get_available_moves b ! j)))) \<and>
           (\<forall>j. k < j \<and> j < length (get_available_moves b) \<longrightarrow>
              \<not> score_ge (fst (move_utility b depth (get_available_moves b ! j)))
                         (fst (move_utility b depth (get_available_moves b ! k))))"
proof -
  from fold_maximize_step [OF assms(2), of "move_utility b depth"]
  obtain k where k: "k < length (get_available_moves b)"
    and r: "fold (\<lambda>m s. maximize_step m (move_utility b depth m) s) (get_available_moves b)
              ((NegInf, 0, 0, 0), None) =
            (move_utility b depth (get_available_moves b ! k), Some (get_available_moves b ! k))"
    and rest: "(\<forall>j<length (get_available_moves b).
              score_ge (fst (move_utility b depth (get_available_moves b ! k)))
                       (fst (move_utility b depth (get_available_moves b ! j)))) \<and>
           (\<forall>j. k < j \<and> j < length (get_available_moves b) \<longrightarrow>
              \<not> score_ge (fst (move_utility b depth (get_available_moves b ! j)))
                         (fst (move_utility b depth (get_available_moves b ! k))))"
    by blast
  from r have "maximize b depth max_depth =
      (Some (get_available_moves b ! k), move_utility b depth (get_available_moves b ! k))"
    by (simp add: maximize_fold [OF assms(1)])
  with k rest show ?thesis by blast
qed

theorem maximize_keeps_last_best_witness:
  "(0::nat) < 3 \<and> get_available_moves distinct_board \<noteq> [] \<and>
   (\<exists>k<length (get_available_moves distinct_board).
      maximize distinct_board 0 3 =
        (Some (get_available_moves distinct_board ! k),
         move_utility distinct_board 0 (get_available_moves distinct_board ! k)) \<and>
      (\<forall>j<length (get_available_moves distinct_board).
         score_ge (fst (move_utility distinct_board 0 (get_available_moves distinct_board ! k)))
                  (fst (move_utility distinct_board 0 (get_available_moves distinct_board ! j)))) \<and>
      (\<forall>j. k < j \<and> j < length (get_available_moves distinct_board) \<longrightarrow>
         \<not> score_ge (fst (move_utility distinct_board 0 (get_available_moves distinct_board ! j)))
                    (fst (move_utility distinct_board 0 (get_available_moves distinct_board ! k)))))"
proof -
  have d: "(0::nat) < 3" by simp
  have m: "get_available_moves distinct_board \<noteq> []" by (simp add: distinct_moves)
  from d m maximize_keeps_last_best [OF d m] show ?thesis by blast
qed

section \<open>The chance step\<close>



















section \<open>Minimax\<close>



lemma MinusInf_least: "MinusInf \<le> (x :: mscore)"
  by simp


lemma PlusInf_greatest: "(x :: mscore) \<le> PlusInf"
  by (cases x) simp_all












section \<open>The choice of the strategy\<close>



end
